theory Spec2Isabelle
  imports Complex_Main "HOL-Library.Log_Nat"
begin

section \<open>The PDF compliance scanner of \<^verbatim>\<open>PDF_Analyzer/pdf_checker.py\<close>\<close>

text \<open>
  The scanner reads one PDF file through three third-party decoders (PyPDF2, pdfplumber
  and PyMuPDF) and builds a nested report. The decoders are not part of the repository,
  so the embedding takes what each of them returns for the file as the input: a file is
  a record of three observations. Everything the repository's own code does with these
  observations is modelled below, function by function.

  Conventions.
  \<^item> A Python \<^verbatim>\<open>dict\<close> is an association list in insertion order with distinct keys;
    assignment replaces the value of a present key where it stands and appends an
    absent key.
  \<^item> An exception is the \<open>Inl\<close> branch of a sum.
  \<^item> Text is Latin-1: a \<open>char\<close> is the code point of a character below U+0100, and
    \<^verbatim>\<open>str.strip\<close>, \<^verbatim>\<open>str.lower\<close>, \<^verbatim>\<open>str.isupper\<close> and the regular expressions have
    the character classes that Python gives these code points (Unicode classes for the
    string methods and \<^verbatim>\<open>\s\<close>, ASCII ranges for \<^verbatim>\<open>[A-Z]\<close> and \<^verbatim>\<open>[a-z]\<close>). Characters from
    U+0100 on are outside the model.
  \<^item> A number of pdfplumber is a binary64 float, given by its exact rational value. A
    float subtraction is the exact difference rounded to the nearest float, a tie going
    to the even significand (\<open>fl\<close>); overflow and subnormal numbers, far from any page
    coordinate, are not modelled.
\<close>

subsection \<open>Values, exceptions and dictionaries\<close>

datatype error = BackendError string | IndexError

datatype pyval = PyInt int | PyStr string

type_synonym ('k, 'v) dict = "('k \<times> 'v) list"

text \<open>\<^verbatim>\<open>d[k] = v\<close>\<close>

fun dict_set :: "'k \<Rightarrow> 'v \<Rightarrow> ('k, 'v) dict \<Rightarrow> ('k, 'v) dict" where
  "dict_set k v [] = [(k, v)]"
| "dict_set k v ((k', v') # d) =
     (if k' = k then (k', v) # d else (k', v') # dict_set k v d)"

text \<open>\<^verbatim>\<open>d.update(other)\<close>\<close>

definition dict_update :: "('k, 'v) dict \<Rightarrow> ('k, 'v) dict \<Rightarrow> ('k, 'v) dict" where
  "dict_update d other = fold (\<lambda>(k, v). dict_set k v) other d"

text \<open>\<^verbatim>\<open>d[k].append(i)\<close> on a \<^verbatim>\<open>defaultdict(list)\<close>: an absent key starts from the empty list.\<close>

fun dd_append :: "'k \<Rightarrow> 'a \<Rightarrow> ('k, 'a list) dict \<Rightarrow> ('k, 'a list) dict" where
  "dd_append k i [] = [(k, [i])]"
| "dd_append k i ((k', l) # d) =
     (if k' = k then (k', l @ [i]) # d else (k', l) # dd_append k i d)"

subsection \<open>The file as the three decoders see it\<close>

text \<open>
  One glyph of pdfplumber's \<^verbatim>\<open>page.chars\<close>: the code reads the keys \<^verbatim>\<open>fontname\<close> and
  \<^verbatim>\<open>size\<close> with \<^verbatim>\<open>dict.get\<close>, so either may be absent. pdfplumber also reports where
  the glyph stands (\<^verbatim>\<open>x0\<close>, \<^verbatim>\<open>y0\<close>, \<^verbatim>\<open>x1\<close>, \<^verbatim>\<open>y1\<close>); the code never reads that.
\<close>

record pchar =
  char_fontname :: "string option"
  char_size :: "rat option"
  char_box :: "rat \<times> rat \<times> rat \<times> rat"

text \<open>
  A pdfplumber page: \<^verbatim>\<open>page.chars\<close> is computed lazily from the content stream and may
  raise. \<^verbatim>\<open>page.bbox\<close> is the box of the page itself (its crop or media box, as
  \<^verbatim>\<open>(x0, y0, x1, y1)\<close>), not a box around what is placed on the page, and pdfplumber
  computes \<^verbatim>\<open>page.width\<close> and \<^verbatim>\<open>page.height\<close> from it (\<open>page_width\<close> and \<open>page_height\<close>
  below).
\<close>

record plumber_page =
  page_chars :: "error + pchar list"
  page_bbox :: "rat \<times> rat \<times> rat \<times> rat"

text \<open>
  \<^item> \<open>PdfReader\<close>: what the constructor \<^verbatim>\<open>PdfReader(file_path)\<close> of PyPDF2 does.
  \<^item> \<open>pdfplumber_open\<close>: \<^verbatim>\<open>pdfplumber.open(pdf_path)\<close> and its \<^verbatim>\<open>pages\<close>.
  \<^item> \<open>fitz_open\<close>: \<^verbatim>\<open>fitz.open(pdf_path)\<close> followed by \<^verbatim>\<open>page.get_text("text")\<close> on
    every page in order. An exception anywhere in that sequence leaves
    \<^verbatim>\<open>detect_sections_dynamic\<close> with no result, whichever call raised it, so the
    sequence is one observation.
\<close>

record pdf_file =
  PdfReader :: "error + unit"
  pdfplumber_open :: "error + plumber_page list"
  fitz_open :: "error + string list"

subsection \<open>\<^verbatim>\<open>is_valid_pdf\<close>\<close>

definition is_valid_pdf :: "pdf_file \<Rightarrow> bool" where
  "is_valid_pdf file_path = (case PdfReader file_path of Inr _ \<Rightarrow> True | Inl _ \<Rightarrow> False)"

subsection \<open>Python string operations\<close>

text \<open>The ranges \<^verbatim>\<open>[A-Z]\<close> and \<^verbatim>\<open>[a-z]\<close> of the regular expressions.\<close>

definition is_upper :: "char \<Rightarrow> bool" where
  "is_upper c = (c \<in> set ''ABCDEFGHIJKLMNOPQRSTUVWXYZ'')"

definition is_lower :: "char \<Rightarrow> bool" where
  "is_lower c = (c \<in> set ''abcdefghijklmnopqrstuvwxyz'')"

text \<open>
  The uppercase and the lowercase characters of Unicode below U+0100, which decide
  \<^verbatim>\<open>str.isupper\<close> and \<^verbatim>\<open>str.lower\<close>: the letters of ASCII, the capitals U+00C0 to U+00DE
  without the multiplication sign, and the small letters U+00DF to U+00FF without the
  division sign, with the ordinal indicators U+00AA, U+00BA and the micro sign U+00B5.
\<close>

definition uni_upper :: "char \<Rightarrow> bool" where
  "uni_upper c =
     (let n = (of_char c :: nat)
      in (65 \<le> n \<and> n \<le> 90) \<or> (192 \<le> n \<and> n \<le> 214) \<or> (216 \<le> n \<and> n \<le> 222))"

definition uni_lower :: "char \<Rightarrow> bool" where
  "uni_lower c =
     (let n = (of_char c :: nat)
      in (97 \<le> n \<and> n \<le> 122) \<or> n = 170 \<or> n = 181 \<or> n = 186 \<or>
         (223 \<le> n \<and> n \<le> 246) \<or> (248 \<le> n \<and> n \<le> 255))"

text \<open>
  White space of \<^verbatim>\<open>str.strip()\<close> and of \<^verbatim>\<open>\s\<close>: code points 9 to 13 and 28 to 32, the
  next-line control U+0085 and the no-break space U+00A0.
\<close>

definition is_space :: "char \<Rightarrow> bool" where
  "is_space c =
     (let n = (of_char c :: nat)
      in (9 \<le> n \<and> n \<le> 13) \<or> (28 \<le> n \<and> n \<le> 32) \<or> n = 133 \<or> n = 160)"

text \<open>Every uppercase character below U+0100 has its lowercase 32 code points above.\<close>

definition lower_char :: "char \<Rightarrow> char" where
  "lower_char c = (if uni_upper c then char_of (of_char c + (32::nat)) else c)"

text \<open>\<^verbatim>\<open>s.lower()\<close>\<close>

definition lower :: "string \<Rightarrow> string" where
  "lower s = map lower_char s"

text \<open>\<^verbatim>\<open>s.strip()\<close>\<close>

definition strip :: "string \<Rightarrow> string" where
  "strip s = rev (dropWhile is_space (rev (dropWhile is_space s)))"

text \<open>\<^verbatim>\<open>s.isupper()\<close>: at least one uppercase character, and no lowercase one.\<close>

definition isupper :: "string \<Rightarrow> bool" where
  "isupper s = (list_ex uni_upper s \<and> list_all (\<lambda>c. \<not> uni_lower c) s)"

text \<open>\<^verbatim>\<open>text.split("\n")\<close>; the first argument holds the current line, reversed.\<close>

fun split_acc :: "string \<Rightarrow> string \<Rightarrow> string list" where
  "split_acc cur [] = [rev cur]"
| "split_acc cur (c # cs) =
     (if c = CHR 0x0A then rev cur # split_acc [] cs else split_acc (c # cur) cs)"

definition split_lines :: "string \<Rightarrow> string list" where
  "split_lines text = split_acc [] text"

text \<open>\<^verbatim>\<open>s.replace(' ', '_')\<close>\<close>

definition replace_space :: "string \<Rightarrow> string" where
  "replace_space s = map (\<lambda>c. if c = CHR '' '' then CHR ''_'' else c) s"

text \<open>\<^verbatim>\<open>sub in s\<close> for strings\<close>

fun contains :: "string \<Rightarrow> string \<Rightarrow> bool" where
  "contains sub [] = (sub = [])"
| "contains sub (c # cs) = (take (length sub) (c # cs) = sub \<or> contains sub cs)"

text \<open>
  \<^verbatim>\<open>re.match(r"^[A-Z][A-Za-z\s\-]+:$", s)\<close>. The colon is not in the character class,
  so the match exists iff \<open>s\<close> is an uppercase letter, then at least one character of the
  class, then a colon that ends the string. (The argument is a stripped line without a
  line feed, so \<^verbatim>\<open>$\<close> is the end of the string.)
\<close>

definition heading_class :: "char \<Rightarrow> bool" where
  "heading_class c = (is_upper c \<or> is_lower c \<or> is_space c \<or> c = CHR ''-'')"

definition re_match_heading :: "string \<Rightarrow> bool" where
  "re_match_heading s =
     (case s of
        [] \<Rightarrow> False
      | c # rest \<Rightarrow>
          is_upper c \<and> rest \<noteq> [] \<and> last rest = CHR '':'' \<and> butlast rest \<noteq> [] \<and>
          list_all heading_class (butlast rest))"

text \<open>\<^verbatim>\<open>re.sub(r"[^a-z ]", "", s)\<close>\<close>

definition re_sub_non_name :: "string \<Rightarrow> string" where
  "re_sub_non_name s = filter (\<lambda>c. is_lower c \<or> c = CHR '' '') s"

subsection \<open>\<^verbatim>\<open>check_formatting\<close>\<close>

text \<open>
  \<^verbatim>\<open>round(x, 1)\<close>: Python rounds the exact value of \<open>x\<close> to one decimal, a tie going to
  the even digit.
\<close>

definition round_half_even :: "rat \<Rightarrow> int" where
  "round_half_even r =
     (let f = \<lfloor>r\<rfloor>; d = r - of_int f
      in if d < 1 / 2 then f else if 1 / 2 < d then f + 1 else if even f then f else f + 1)"

definition py_round1 :: "rat \<Rightarrow> rat" where
  "py_round1 x = of_int (round_half_even (x * 10)) / 10"

definition initial_result :: "(string, string) dict" where
  "initial_result = [(''font_size'', ''pass''), (''font_family'', ''pass''), (''margin'', ''pass'')]"

text \<open>\<^verbatim>\<open>char.get('fontname', '')\<close> and \<^verbatim>\<open>round(float(char.get('size', 0)), 1)\<close>\<close>

definition get_fontname :: "pchar \<Rightarrow> string" where
  "get_fontname c = (case char_fontname c of None \<Rightarrow> [] | Some f \<Rightarrow> f)"

definition get_size :: "pchar \<Rightarrow> rat" where
  "get_size c = py_round1 (case char_size c of None \<Rightarrow> 0 | Some s \<Rightarrow> s)"

text \<open>
  Float subtraction. For \<open>0 < x\<close>, \<open>float_exponent x\<close> is the \<open>e\<close> with
  \<open>2 powi e \<le> x < 2 powi (e + 1)\<close>, and \<open>fl_abs x\<close> rounds \<open>x\<close> to a multiple of
  \<open>2 powi (e - 52)\<close>, that is to 53 significant bits.
\<close>

definition float_exponent :: "rat \<Rightarrow> int" where
  "float_exponent x =
     (case quotient_of x of
        (p, q) \<Rightarrow> (let d = bitlen p - bitlen q in if 2 powi d \<le> x then d else d - 1))"

definition fl_abs :: "rat \<Rightarrow> rat" where
  "fl_abs x =
     (let u = 2 powi (float_exponent x - 52) in of_int (round_half_even (x / u)) * u)"

definition fl :: "rat \<Rightarrow> rat" where
  "fl x = (if x = 0 then 0 else if x < 0 then - fl_abs (- x) else fl_abs x)"

text \<open>
  \<^verbatim>\<open>page.width\<close> and \<^verbatim>\<open>page.height\<close>, which pdfplumber computes as
  \<^verbatim>\<open>bbox[2] - bbox[0]\<close> and \<^verbatim>\<open>bbox[3] - bbox[1]\<close>.
\<close>

definition page_width :: "plumber_page \<Rightarrow> rat" where
  "page_width page = (case page_bbox page of (x0, y0, x1, y1) \<Rightarrow> fl (x1 - x0))"

definition page_height :: "plumber_page \<Rightarrow> rat" where
  "page_height page = (case page_bbox page of (x0, y0, x1, y1) \<Rightarrow> fl (y1 - y0))"

text \<open>The four margins \<^verbatim>\<open>[left, right, top, bottom]\<close> of lines 41 to 48.\<close>

definition margins :: "plumber_page \<Rightarrow> rat list" where
  "margins page =
     (case page_bbox page of
        (c0, c1, c2, c3) \<Rightarrow>
          [c0, fl (page_width page - c2), fl (page_height page - c3), c1])"

text \<open>
  The body of the \<^verbatim>\<open>try\<close> block. It raises when pdfplumber cannot open the file, when
  the document has no page (\<^verbatim>\<open>pdf.pages[0]\<close>) and when the characters of the first
  page cannot be read.
\<close>

definition check_formatting_try :: "pdf_file \<Rightarrow> error + (string, string) dict" where
  "check_formatting_try pdf_path =
     (case pdfplumber_open pdf_path of
        Inl e \<Rightarrow> Inl e
      | Inr pages \<Rightarrow>
          (case pages of
             [] \<Rightarrow> Inl IndexError
           | page # _ \<Rightarrow>
               (case page_chars page of
                  Inl e \<Rightarrow> Inl e
                | Inr cs \<Rightarrow>
                    (let fonts = map get_fontname cs;
                         sizes = map get_size cs;
                         result = initial_result;
                         result = (if 12 \<notin> set sizes
                                   then dict_set ''font_size'' ''fail'' result else result);
                         result = (if \<not> list_ex (\<lambda>f. contains ''Times'' f \<or>
                                                      contains ''TimesNewRoman'' f) fonts
                                   then dict_set ''font_family'' ''fail'' result else result);
                         one_inch = 72;
                         tolerance = 5;
                         result = (if \<not> list_all (\<lambda>m. \<bar>fl (m - one_inch)\<bar> \<le> tolerance)
                                                    (margins page)
                                   then dict_set ''margin'' ''fail'' result else result)
                     in Inr result))))"

text \<open>The bare \<^verbatim>\<open>except\<close> replaces every value of the result by \<^verbatim>\<open>'fail'\<close>.\<close>

definition check_formatting :: "pdf_file \<Rightarrow> (string, string) dict" where
  "check_formatting pdf_path =
     (case check_formatting_try pdf_path of
        Inr result \<Rightarrow> result
      | Inl _ \<Rightarrow> map (\<lambda>(k, _). (k, ''fail'')) initial_result)"

subsection \<open>\<^verbatim>\<open>detect_sections_dynamic\<close>\<close>

record scan_state =
  section_starts :: "(string, nat) dict"
  section_pages :: "(string, nat list) dict"

definition init_state :: scan_state where
  "init_state = \<lparr>section_starts = [], section_pages = []\<rparr>"

text \<open>The test of line 73 and the name of line 74.\<close>

definition is_heading :: "string \<Rightarrow> bool" where
  "is_heading line = (re_match_heading (strip line) \<or> isupper line)"

definition section_name_of :: "string \<Rightarrow> string" where
  "section_name_of line = strip (re_sub_non_name (lower (strip line)))"

text \<open>The body of the inner loop, for one line of page \<open>i\<close>.\<close>

definition process_line :: "nat \<Rightarrow> string \<Rightarrow> scan_state \<Rightarrow> scan_state" where
  "process_line i line st =
     (if is_heading line then
        (let section_name = section_name_of line
         in if section_name \<noteq> [] \<and> section_name \<notin> set (map fst (section_starts st))
            then st\<lparr>section_starts := dict_set section_name i (section_starts st),
                    section_pages := dd_append section_name i (section_pages st)\<rparr>
            else st)
      else if section_starts st \<noteq> [] then
        (let last_section = last (map fst (section_starts st))
         in st\<lparr>section_pages := dd_append last_section i (section_pages st)\<rparr>)
      else st)"

text \<open>\<^verbatim>\<open>for i, page in enumerate(doc)\<close>, the first argument being the index of the next page.\<close>

fun scan_pages :: "nat \<Rightarrow> string list \<Rightarrow> scan_state \<Rightarrow> scan_state" where
  "scan_pages i [] st = st"
| "scan_pages i (text # doc) st =
     scan_pages (Suc i) doc (fold (process_line i) (split_lines text) st)"

text \<open>\<^verbatim>\<open>section_pages[k] = sorted(set(section_pages[k]))\<close> for every key.\<close>

definition sorted_pages :: "(string, nat list) dict \<Rightarrow> (string, nat list) dict" where
  "sorted_pages sp = map (\<lambda>(k, pages). (k, sort (remdups pages))) sp"

text \<open>
  The limits are \<^verbatim>\<open>None\<close> or a dictionary from names to integers. The status of lines
  92 to 95; \<^verbatim>\<open>max_page_limits and ...\<close> is false for \<^verbatim>\<open>None\<close> and for the empty
  dictionary.
\<close>

type_synonym limits = "(string, int) dict option"

definition section_status :: "limits \<Rightarrow> string \<Rightarrow> nat list \<Rightarrow> string" where
  "section_status max_page_limits sec pages =
     (case max_page_limits of
        None \<Rightarrow> ''n/a''
      | Some limits \<Rightarrow>
          (if limits \<noteq> [] then
             (case map_of limits sec of
                Some m \<Rightarrow> (if int (length pages) \<le> m then ''pass'' else ''fail'')
              | None \<Rightarrow> ''n/a'')
           else ''n/a''))"

definition page_key :: "string \<Rightarrow> string" where
  "page_key sec = replace_space sec @ ''_pages''"

definition status_key :: "string \<Rightarrow> string" where
  "status_key sec = replace_space sec"

text \<open>One round of the loop of lines 86 to 95, and the loop.\<close>

definition emit_section ::
  "limits \<Rightarrow> string \<times> nat list \<Rightarrow> (string, pyval) dict \<Rightarrow> (string, pyval) dict" where
  "emit_section max_page_limits item result =
     (case item of
        (sec, pages) \<Rightarrow>
          dict_set (status_key sec) (PyStr (section_status max_page_limits sec pages))
            (dict_set (page_key sec) (PyInt (int (length pages))) result))"

definition build_result :: "limits \<Rightarrow> (string, nat list) dict \<Rightarrow> (string, pyval) dict" where
  "build_result max_page_limits sp = fold (emit_section max_page_limits) sp []"

text \<open>The function on the page texts that PyMuPDF extracted.\<close>

definition detect_sections :: "string list \<Rightarrow> limits \<Rightarrow> (string, pyval) dict" where
  "detect_sections doc max_page_limits =
     build_result max_page_limits (sorted_pages (section_pages (scan_pages 0 doc init_state)))"

text \<open>There is no handler in the function: what PyMuPDF raises, the function raises.\<close>

definition detect_sections_dynamic :: "pdf_file \<Rightarrow> limits \<Rightarrow> error + (string, pyval) dict" where
  "detect_sections_dynamic pdf_path max_page_limits =
     (case fitz_open pdf_path of
        Inl e \<Rightarrow> Inl e
      | Inr doc \<Rightarrow> Inr (detect_sections doc max_page_limits))"

subsection \<open>\<^verbatim>\<open>analyze_pdf\<close>\<close>

record report =
  format :: "(string, string) dict"
  content :: "(string, pyval) dict"

definition analyze_pdf :: "pdf_file \<Rightarrow> limits \<Rightarrow> error + report" where
  "analyze_pdf pdf_path max_page_limits =
     (if \<not> is_valid_pdf pdf_path then
        Inr \<lparr>format = dict_set ''file_type'' ''fail'' [], content = []\<rparr>
      else
        (let fmt = dict_set ''file_type'' ''pass'' [];
             fmt = dict_update fmt (check_formatting pdf_path)
         in case detect_sections_dynamic pdf_path max_page_limits of
              Inl e \<Rightarrow> Inl e
            | Inr sections \<Rightarrow> Inr \<lparr>format = fmt, content = dict_update [] sections\<rparr>))"

subsection \<open>Notions of the specification\<close>


text \<open>
  The normalized name as the specification words it: the line in lowercase, every
  character other than letters and spaces removed, trimmed, and every run of spaces
  inside it collapsed to one space. It is stated here to be compared with
  \<open>section_name_of\<close>, which is what the code computes.
\<close>

fun collapse_spaces :: "string \<Rightarrow> string" where
  "collapse_spaces (c # d # cs) =
     (if c = CHR '' '' \<and> d = CHR '' '' then collapse_spaces (d # cs)
      else c # collapse_spaces (d # cs))"
| "collapse_spaces cs = cs"

definition spec_normalized_name :: "string \<Rightarrow> string" where
  "spec_normalized_name line =
     collapse_spaces (strip (filter (\<lambda>c. is_lower c \<or> c = CHR '' '') (lower line)))"

text \<open>
  The margins as the specification words them, from each edge of the page to the
  bounding box of the placed content (here: of the glyphs), in the order left, right,
  top, bottom. A page without content has no such box.
\<close>

fun content_bbox :: "pchar list \<Rightarrow> (rat \<times> rat \<times> rat \<times> rat) option" where
  "content_bbox [] = None"
| "content_bbox (c # cs) =
     (case char_box c of
        (x0, y0, x1, y1) \<Rightarrow>
          (case content_bbox cs of
             None \<Rightarrow> Some (x0, y0, x1, y1)
           | Some (a0, b0, a1, b1) \<Rightarrow> Some (min x0 a0, min y0 b0, max x1 a1, max y1 b1)))"

definition spec_margins :: "plumber_page \<Rightarrow> pchar list \<Rightarrow> rat list option" where
  "spec_margins page cs =
     (case content_bbox cs of
        None \<Rightarrow> None
      | Some (c0, c1, c2, c3) \<Rightarrow>
          (case page_bbox page of
             (p0, p1, p2, p3) \<Rightarrow> Some [c0 - p0, p2 - c2, p3 - c3, c1 - p1]))"

text \<open>
  Page \<open>i\<close> is attributed to section \<open>sec\<close> in a state of the scan: the page list of
  \<open>sec\<close> exists and has \<open>i\<close> in it.
\<close>

definition attributed :: "scan_state \<Rightarrow> string \<Rightarrow> nat \<Rightarrow> bool" where
  "attributed st sec i =
     (case map_of (section_pages st) sec of None \<Rightarrow> False | Some pages \<Rightarrow> i \<in> set pages)"

text \<open>
  What every state of a scan satisfies: the two dictionaries have the same keys in the
  same order, no key twice, and every key is a non-empty word over \<^verbatim>\<open>a-z\<close> and the space.
\<close>

definition name_chars :: "string \<Rightarrow> bool" where
  "name_chars s = list_all (\<lambda>c. is_lower c \<or> c = CHR '' '') s"

definition scan_inv :: "scan_state \<Rightarrow> bool" where
  "scan_inv st =
     (map fst (section_pages st) = map fst (section_starts st) \<and>
      distinct (map fst (section_starts st)) \<and>
      list_all (\<lambda>k. k \<noteq> [] \<and> name_chars k) (map fst (section_starts st)))"

text \<open>
  The status as the specification words it, from the limits, the normalized name and the
  number of distinct pages: \<^verbatim>\<open>"pass"\<close> when a limit for the name exists and the count is
  at most the limit, \<^verbatim>\<open>"fail"\<close> when a limit exists and is exceeded, \<^verbatim>\<open>"n/a"\<close> when there
  is no limit for the name or no mapping at all.
\<close>

definition spec_status :: "limits \<Rightarrow> string \<Rightarrow> nat \<Rightarrow> string" where
  "spec_status max_page_limits name count =
     (case max_page_limits of
        None \<Rightarrow> ''n/a''
      | Some limits \<Rightarrow>
          (case map_of limits name of
             None \<Rightarrow> ''n/a''
           | Some limit \<Rightarrow> if int count \<le> limit then ''pass'' else ''fail''))"

section \<open>Properties\<close>

subsection \<open>Substrings\<close>

lemma contains_append: "contains sub (p @ sub @ q)"
proof (induction p)
  case Nil
  show ?case
  proof (cases "sub @ q")
    case Nil
    then show ?thesis by simp
  next
    case (Cons a l)
    have "take (length sub) (sub @ q) = sub" by simp
    then have "take (length sub) (a # l) = sub" unfolding Cons .
    then show ?thesis unfolding append_Nil Cons contains.simps by blast
  qed
next
  case (Cons a p)
  then show ?case by simp
qed

lemma contains_iff: "contains sub s \<longleftrightarrow> (\<exists>p q. s = p @ sub @ q)"
proof
  show "contains sub s \<Longrightarrow> \<exists>p q. s = p @ sub @ q"
  proof (induction s)
    case Nil
    then show ?case by simp
  next
    case (Cons c cs)
    show ?case
    proof (cases "take (length sub) (c # cs) = sub")
      case True
      then have "c # cs = [] @ sub @ drop (length sub) (c # cs)"
        by (metis append_Nil append_take_drop_id)
      then show ?thesis by blast
    next
      case False
      with Cons.prems have "contains sub cs" by simp
      then obtain p q where "cs = p @ sub @ q" using Cons.IH by blast
      then have "c # cs = (c # p) @ sub @ q" by simp
      then show ?thesis by blast
    qed
  qed
next
  show "\<exists>p q. s = p @ sub @ q \<Longrightarrow> contains sub s"
    using contains_append by blast
qed

text \<open>The second disjunct of line 38 adds nothing: a name with \<^verbatim>\<open>TimesNewRoman\<close> has \<^verbatim>\<open>Times\<close>.\<close>

lemma contains_TimesNewRoman: "contains ''TimesNewRoman'' f \<Longrightarrow> contains ''Times'' f"
proof -
  assume "contains ''TimesNewRoman'' f"
  then obtain p q where "f = p @ ''TimesNewRoman'' @ q" using contains_iff by blast
  then have "f = p @ ''Times'' @ (''NewRoman'' @ q)" by simp
  then show ?thesis using contains_iff by blast
qed

subsection \<open>The gate of the aggregator\<close>

text \<open>
  C1. When \<open>is_valid_pdf\<close> rejects the file, \<open>analyze_pdf\<close> returns the report whose
  format mapping is exactly \<^verbatim>\<open>{"file_type": "fail"}\<close> and whose content mapping is empty.
  The result is a value (\<open>Inr\<close>) whatever pdfplumber and PyMuPDF would do with the file,
  also when they would raise: neither of the two later stages is run.
\<close>

theorem analyze_pdf_rejected:
  "\<not> is_valid_pdf f \<Longrightarrow>
   analyze_pdf f max_page_limits = Inr \<lparr>format = [(''file_type'', ''fail'')], content = []\<rparr>"
  by (simp add: analyze_pdf_def)

theorem analyze_pdf_rejected_witness:
  "\<not> is_valid_pdf \<lparr>PdfReader = Inl (BackendError ''EOF marker not found''),
                    pdfplumber_open = Inl (BackendError ''No /Root object''),
                    fitz_open = Inl (BackendError ''cannot open broken document'')\<rparr> \<and>
   analyze_pdf \<lparr>PdfReader = Inl (BackendError ''EOF marker not found''),
                pdfplumber_open = Inl (BackendError ''No /Root object''),
                fitz_open = Inl (BackendError ''cannot open broken document'')\<rparr>
               (Some [(''summary'', 2)])
     = Inr \<lparr>format = [(''file_type'', ''fail'')], content = []\<rparr>"
proof -
  have h: "\<not> is_valid_pdf \<lparr>PdfReader = Inl (BackendError ''EOF marker not found''),
                    pdfplumber_open = Inl (BackendError ''No /Root object''),
                    fitz_open = Inl (BackendError ''cannot open broken document'')\<rparr>"
    by (simp add: is_valid_pdf_def)
  show ?thesis using h analyze_pdf_rejected [OF h] by simp
qed

text \<open>
  C9. The three decoders parse the file independently, and nothing in the code makes
  PyMuPDF succeed where the constructor of PyPDF2 did (a damaged or password-protected
  document can pass the one and stop the other). On a file that \<open>is_valid_pdf\<close> accepts
  and on which PyMuPDF raises, \<open>check_formatting\<close> absorbs the exception of pdfplumber,
  but \<open>detect_sections_dynamic\<close> has no handler: \<open>analyze_pdf\<close> raises what PyMuPDF
  raised.
\<close>

theorem analyze_pdf_raises_on_accepted_file:
  "is_valid_pdf \<lparr>PdfReader = Inr (),
                 pdfplumber_open = Inl (BackendError ''PDFPasswordIncorrect''),
                 fitz_open = Inl (BackendError ''document closed or encrypted'')\<rparr> \<and>
   analyze_pdf \<lparr>PdfReader = Inr (),
                pdfplumber_open = Inl (BackendError ''PDFPasswordIncorrect''),
                fitz_open = Inl (BackendError ''document closed or encrypted'')\<rparr> None
     = Inl (BackendError ''document closed or encrypted'')"
  by (simp add: is_valid_pdf_def analyze_pdf_def detect_sections_dynamic_def)

subsection \<open>The typography checker\<close>

text \<open>The checker raises inside its \<^verbatim>\<open>try\<close> block in exactly three situations.\<close>

lemma check_formatting_try_raises:
  "(\<exists>e. check_formatting_try f = Inl e) \<longleftrightarrow>
     (\<exists>e. pdfplumber_open f = Inl e) \<or> pdfplumber_open f = Inr [] \<or>
     (\<exists>page rest e. pdfplumber_open f = Inr (page # rest) \<and> page_chars page = Inl e)"
  by (auto simp: check_formatting_try_def Let_def split: sum.splits list.splits)

text \<open>
  C5. Whenever the extraction sequence raises, \<open>check_formatting\<close> returns the three
  fields, all of them \<^verbatim>\<open>"fail"\<close>. The function returns a mapping and not a sum: nothing
  it catches reaches the caller.
\<close>

theorem check_formatting_exception:
  "check_formatting_try f = Inl e \<Longrightarrow>
   check_formatting f =
     [(''font_size'', ''fail''), (''font_family'', ''fail''), (''margin'', ''fail'')]"
  by (simp add: check_formatting_def initial_result_def)

theorem check_formatting_exception_witness:
  "check_formatting_try \<lparr>PdfReader = Inr (), pdfplumber_open = Inr [], fitz_open = Inr []\<rparr>
     = Inl IndexError \<and>
   check_formatting \<lparr>PdfReader = Inr (), pdfplumber_open = Inr [], fitz_open = Inr []\<rparr> =
     [(''font_size'', ''fail''), (''font_family'', ''fail''), (''margin'', ''fail'')]"
proof -
  have h: "check_formatting_try
             \<lparr>PdfReader = Inr (), pdfplumber_open = Inr [], fitz_open = Inr []\<rparr>
           = Inl IndexError"
    by (simp add: check_formatting_try_def)
  show ?thesis using h check_formatting_exception [OF h] by simp
qed

subsection \<open>Float subtraction is monotone\<close>

lemma rhe_cases: "round_half_even r = \<lfloor>r\<rfloor> \<or> round_half_even r = \<lfloor>r\<rfloor> + 1"
  by (simp add: round_half_even_def Let_def)

lemma rhe_mono: "r \<le> s \<Longrightarrow> round_half_even r \<le> round_half_even s"
proof -
  assume rs: "r \<le> s"
  then have fl: "\<lfloor>r\<rfloor> \<le> \<lfloor>s\<rfloor>" by (rule floor_mono)
  show ?thesis
  proof (cases "\<lfloor>r\<rfloor> = \<lfloor>s\<rfloor>")
    case True
    then have "r - of_int \<lfloor>r\<rfloor> \<le> s - of_int \<lfloor>s\<rfloor>" using rs by simp
    then show ?thesis using True
      by (auto simp: round_half_even_def Let_def)
  next
    case False
    then have "\<lfloor>r\<rfloor> + 1 \<le> \<lfloor>s\<rfloor>" using fl by simp
    then show ?thesis using rhe_cases [of r] rhe_cases [of s] by linarith
  qed
qed

lemma rhe_of_int: "round_half_even (of_int n) = n"
  by (simp add: round_half_even_def)

lemma rhe_ge: "of_int n \<le> r \<Longrightarrow> n \<le> round_half_even r"
  using rhe_mono [of "of_int n" r] by (simp add: rhe_of_int)

lemma rhe_le: "r \<le> of_int n \<Longrightarrow> round_half_even r \<le> n"
  using rhe_mono [of r "of_int n"] by (simp add: rhe_of_int)


lemma bitlen_powi_bounds:
  assumes "0 < p"
  shows "(2::rat) powi (bitlen p - 1) \<le> of_int p \<and> of_int p < (2::rat) powi bitlen p"
proof -
  from assms have ge1: "1 \<le> bitlen p" by (auto simp: bitlen_alt_def)
  from bitlen_bounds [OF assms]
  have lo: "2 ^ nat (bitlen p - 1) \<le> p" and hi: "p < 2 ^ nat (bitlen p)" by simp_all
  have "(of_int (2 ^ nat (bitlen p - 1)) :: rat) \<le> of_int p"
    using lo by (simp only: of_int_le_iff)
  then have a: "(2::rat) powi (bitlen p - 1) \<le> of_int p"
    using ge1 by (simp add: power_int_def)
  have "(of_int p :: rat) < of_int (2 ^ nat (bitlen p))"
    using hi by (simp only: of_int_less_iff)
  then have b: "of_int p < (2::rat) powi bitlen p"
    using ge1 by (simp add: power_int_def)
  show ?thesis using a b by simp
qed

lemma float_exponent_bounds:
  assumes "0 < x"
  shows "2 powi float_exponent x \<le> x \<and> x < 2 powi (float_exponent x + 1)"
proof -
  obtain p q where pq: "quotient_of x = (p, q)" by (cases "quotient_of x")
  have q: "0 < q" using pq by (rule quotient_of_denom_pos)
  have x: "x = of_int p / of_int q" using pq by (rule quotient_of_div)
  have p: "0 < p" using assms q unfolding x by (simp add: zero_less_divide_iff)
  define a where "a = bitlen p"
  define b where "b = bitlen q"
  have pa: "(2::rat) powi (a - 1) \<le> of_int p" "of_int p < (2::rat) powi a"
    using bitlen_powi_bounds [OF p] by (simp_all add: a_def)
  have qb: "(2::rat) powi (b - 1) \<le> of_int q" "of_int q < (2::rat) powi b"
    using bitlen_powi_bounds [OF q] by (simp_all add: b_def)
  have "(2::rat) powi (a - 1) / 2 powi b < of_int p / of_int q"
    using pa(1) qb(2) q by (intro frac_less2) simp_all
  moreover have "(2::rat) powi ((a - 1) - b) = 2 powi (a - 1) / 2 powi b"
    by (rule power_int_diff) simp
  moreover have "(a - 1) - b = a - b - 1" by simp
  ultimately have lo: "(2::rat) powi (a - b - 1) < x"
    unfolding x by metis
  have "of_int p / of_int q < (2::rat) powi a / 2 powi (b - 1)"
    using pa(2) qb(1) p by (intro frac_less) simp_all
  moreover have "(2::rat) powi (a - (b - 1)) = 2 powi a / 2 powi (b - 1)"
    by (rule power_int_diff) simp
  moreover have "a - (b - 1) = a - b + 1" by simp
  ultimately have hi: "x < (2::rat) powi (a - b + 1)"
    unfolding x by metis
  have e: "float_exponent x = (if 2 powi (a - b) \<le> x then a - b else a - b - 1)"
    by (simp add: float_exponent_def pq Let_def a_def b_def)
  show ?thesis
  proof (cases "2 powi (a - b) \<le> x")
    case True
    then show ?thesis using e hi by simp
  next
    case False
    then show ?thesis using e lo by simp
  qed
qed

lemma fl_abs_bounds:
  assumes "0 < x"
  shows "2 powi float_exponent x \<le> fl_abs x \<and> fl_abs x \<le> 2 powi (float_exponent x + 1)"
proof -
  define e where "e = float_exponent x"
  define u :: rat where "u = 2 powi (e - 52)"
  have u: "0 < u" by (simp add: u_def)
  have b: "2 powi e \<le> x" "x < 2 powi (e + 1)"
    using float_exponent_bounds [OF assms] by (simp_all add: e_def)
  have lo: "(2::rat) powi e = of_int (2 ^ 52) * u"
    by (simp add: u_def power_int_diff)
  have hi: "(2::rat) powi (e + 1) = of_int (2 ^ 53) * u"
    by (simp add: u_def power_int_diff power_int_add)
  have "of_int (2 ^ 52) \<le> x / u" using b(1) u unfolding lo by (simp add: pos_le_divide_eq)
  then have 1: "2 ^ 52 \<le> round_half_even (x / u)" by (rule rhe_ge)
  have "x / u \<le> of_int (2 ^ 53)" using b(2) u unfolding hi by (simp add: pos_divide_le_eq)
  then have 2: "round_half_even (x / u) \<le> 2 ^ 53" by (rule rhe_le)
  have f: "fl_abs x = of_int (round_half_even (x / u)) * u"
    by (simp add: fl_abs_def Let_def u_def e_def)
  have "of_int (2 ^ 52) * u \<le> of_int (round_half_even (x / u)) * u"
    using 1 u by (intro mult_right_mono) (simp_all only: of_int_le_iff less_imp_le)
  moreover have "of_int (round_half_even (x / u)) * u \<le> of_int (2 ^ 53) * u"
    using 2 u by (intro mult_right_mono) (simp_all only: of_int_le_iff less_imp_le)
  ultimately show ?thesis unfolding f e_def [symmetric] lo hi by simp
qed

lemma fl_abs_mono:
  assumes "0 < x" and "x \<le> y"
  shows "fl_abs x \<le> fl_abs y"
proof -
  have y: "0 < y" using assms by simp
  define e where "e = float_exponent x"
  define e' where "e' = float_exponent y"
  have bx: "2 powi e \<le> x" using float_exponent_bounds [OF assms(1)] by (simp add: e_def)
  have by': "y < 2 powi (e' + 1)" using float_exponent_bounds [OF y] by (simp add: e'_def)
  have "(2::rat) powi e < 2 powi (e' + 1)" using bx by' assms(2) by linarith
  then have le: "e \<le> e'"
    using power_int_increasing [of "e' + 1" e "2::rat"] by (cases "e \<le> e'") auto
  show ?thesis
  proof (cases "e = e'")
    case True
    define u :: rat where "u = 2 powi (e - 52)"
    have u: "0 < u" by (simp add: u_def)
    have "x / u \<le> y / u" using assms(2) u by (simp add: divide_right_mono)
    then have "round_half_even (x / u) \<le> round_half_even (y / u)" by (rule rhe_mono)
    then have "of_int (round_half_even (x / u)) * u \<le> of_int (round_half_even (y / u)) * u"
      using u by (intro mult_right_mono) (simp_all only: of_int_le_iff less_imp_le)
    then show ?thesis
      using True by (simp add: fl_abs_def Let_def u_def e_def e'_def)
  next
    case False
    then have "e + 1 \<le> e'" using le by simp
    then have "(2::rat) powi (e + 1) \<le> 2 powi e'" by (intro power_int_increasing) simp_all
    moreover have "fl_abs x \<le> 2 powi (e + 1)"
      using fl_abs_bounds [OF assms(1)] by (simp add: e_def)
    moreover have "2 powi e' \<le> fl_abs y"
      using fl_abs_bounds [OF y] by (simp add: e'_def)
    ultimately show ?thesis by linarith
  qed
qed

lemma fl_abs_pos: "0 < x \<Longrightarrow> 0 < fl_abs x"
proof -
  assume x: "0 < x"
  have "(0::rat) < 2 powi float_exponent x" by simp
  then show ?thesis using fl_abs_bounds [OF x] by linarith
qed

lemma fl_mono: "x \<le> y \<Longrightarrow> fl x \<le> fl y"
proof -
  assume xy: "x \<le> y"
  consider "0 < x" | "x \<le> 0" "0 \<le> y" | "y < 0" by linarith
  then show ?thesis
  proof cases
    case 1
    then show ?thesis using xy fl_abs_mono [of x y] by (simp add: fl_def)
  next
    case 2
    have "fl x \<le> 0" using 2(1) fl_abs_pos [of "- x"] by (auto simp: fl_def less_imp_le)
    moreover have "0 \<le> fl y" using 2(2) fl_abs_pos [of y] by (auto simp: fl_def less_imp_le)
    ultimately show ?thesis by simp
  next
    case 3
    then have "fl_abs (- y) \<le> fl_abs (- x)" using xy by (intro fl_abs_mono) simp_all
    then show ?thesis using 3 xy by (simp add: fl_def)
  qed
qed

subsection \<open>The three fields of a readable first page\<close>

text \<open>
  When the first page and its characters can be read, \<^verbatim>\<open>font_size\<close> passes iff 12.0 is
  among the sizes rounded to one decimal, and \<^verbatim>\<open>font_family\<close> passes iff some font name
  has \<^verbatim>\<open>Times\<close> as a substring; a page without characters fails both. The margin fails
  whatever the page: \<^verbatim>\<open>page.bbox\<close> is the box of the page, so the left margin is \<open>x0\<close>
  and the right margin, \<open>(x1 - x0) - x1\<close> in floats, is at most 0 as soon as \<open>x0\<close> is
  positive; the two cannot both be near 72.
\<close>

lemma margin_never_passes:
  assumes "page_bbox page = (x0, y0, x1, y1)" and "fl x1 = x1"
  shows "\<not> list_all (\<lambda>m. \<bar>fl (m - 72)\<bar> \<le> 5) (margins page)"
proof
  assume "list_all (\<lambda>m. \<bar>fl (m - 72)\<bar> \<le> 5) (margins page)"
  then have left: "\<bar>fl (x0 - 72)\<bar> \<le> 5"
    and right: "\<bar>fl (fl (fl (x1 - x0) - x1) - 72)\<bar> \<le> 5"
    using assms(1) by (simp_all add: margins_def page_width_def)
  have m72: "fl (- 72) = - 72" by code_simp
  have z: "fl 0 = 0" by (simp add: fl_def)
  have pos: "0 < x0"
  proof (rule ccontr)
    assume "\<not> 0 < x0"
    then have "x0 - 72 \<le> - 72" by simp
    then have "fl (x0 - 72) \<le> fl (- 72)" by (rule fl_mono)
    then show False using left m72 by linarith
  qed
  then have "x1 - x0 \<le> x1" by simp
  then have "fl (x1 - x0) \<le> fl x1" by (rule fl_mono)
  then have "fl (x1 - x0) - x1 \<le> 0" using assms(2) by simp
  then have "fl (fl (x1 - x0) - x1) \<le> fl 0" by (rule fl_mono)
  then have "fl (fl (x1 - x0) - x1) - 72 \<le> - 72" using z by simp
  then have "fl (fl (fl (x1 - x0) - x1) - 72) \<le> fl (- 72)" by (rule fl_mono)
  then show False using right m72 by linarith
qed

lemma check_formatting_readable:
  assumes "pdfplumber_open f = Inr (page # rest)"
    and "page_chars page = Inr cs"
    and "page_bbox page = (x0, y0, x1, y1)"
    and "fl x1 = x1"
  shows "check_formatting f =
     [(''font_size'',
         if 12 \<in> (\<lambda>c. py_round1 (case char_size c of None \<Rightarrow> 0 | Some s \<Rightarrow> s)) ` set cs
         then ''pass'' else ''fail''),
      (''font_family'',
         if \<exists>c \<in> set cs. \<exists>p q.
              (case char_fontname c of None \<Rightarrow> [] | Some n \<Rightarrow> n) = p @ ''Times'' @ q
         then ''pass'' else ''fail''),
      (''margin'', ''fail'')]"
proof -
  have fam: "list_ex (\<lambda>n. contains ''Times'' n \<or> contains ''TimesNewRoman'' n)
               (map get_fontname cs)
     \<longleftrightarrow> (\<exists>c \<in> set cs. \<exists>p q.
            (case char_fontname c of None \<Rightarrow> [] | Some n \<Rightarrow> n) = p @ ''Times'' @ q)"
    (is "?L = ?R")
  proof
    assume ?L
    then obtain c where c: "c \<in> set cs" "contains ''Times'' (get_fontname c)"
      using contains_TimesNewRoman by (auto simp: list_ex_iff)
    then show ?R unfolding get_fontname_def contains_iff by blast
  next
    assume ?R
    then show ?L unfolding list_ex_iff get_fontname_def contains_iff by auto
  qed
  have sz: "get_size = (\<lambda>c. py_round1 (case char_size c of None \<Rightarrow> 0 | Some s \<Rightarrow> s))"
    by (rule ext) (simp add: get_size_def)
  have mg: "list_all (\<lambda>m. \<bar>fl (m - 72)\<bar> \<le> 5) (margins page) = False"
    using margin_never_passes [OF assms(3,4)] by simp
  show ?thesis
    unfolding check_formatting_def check_formatting_try_def Let_def
    using assms(1,2) by (simp add: fam sz mg initial_result_def)
qed

text \<open>
  C4. A first page of 612 by 792 points whose glyphs, 12 pt in a subset of Times New
  Roman, leave exactly 72 points on every side. The margins of the specification, from
  the page edges to the box of the content, are all 72, and \<^verbatim>\<open>font_size\<close> and
  \<^verbatim>\<open>font_family\<close> pass; but \<^verbatim>\<open>margin\<close> fails. Line 43 takes \<^verbatim>\<open>page.bbox\<close>, the box of the
  page, for the box of the content, so the margins it computes are 0 on every side.
\<close>

theorem margin_fails_on_one_inch_page:
  "spec_margins \<lparr>page_chars = Inr [], page_bbox = (0, 0, 612, 792)\<rparr>
     [\<lparr>char_fontname = Some ''ABCDEF+TimesNewRomanPSMT'', char_size = Some 12,
       char_box = (72, 708, 80, 720)\<rparr>,
      \<lparr>char_fontname = Some ''ABCDEF+TimesNewRomanPSMT'', char_size = Some 12,
       char_box = (532, 72, 540, 84)\<rparr>]
   = Some [72, 72, 72, 72] \<and>
   margins \<lparr>page_chars = Inr [], page_bbox = (0, 0, 612, 792)\<rparr> = [0, 0, 0, 0] \<and>
   check_formatting
     \<lparr>PdfReader = Inr (),
      pdfplumber_open =
        Inr [\<lparr>page_chars =
                Inr [\<lparr>char_fontname = Some ''ABCDEF+TimesNewRomanPSMT'', char_size = Some 12,
                      char_box = (72, 708, 80, 720)\<rparr>,
                     \<lparr>char_fontname = Some ''ABCDEF+TimesNewRomanPSMT'', char_size = Some 12,
                      char_box = (532, 72, 540, 84)\<rparr>],
              page_bbox = (0, 0, 612, 792)\<rparr>],
      fitz_open = Inr []\<rparr>
   = [(''font_size'', ''pass''), (''font_family'', ''pass''), (''margin'', ''fail'')]"
  by code_simp

subsection \<open>Dictionaries\<close>

lemma dict_set_old: "k \<in> set (map fst d) \<Longrightarrow> map fst (dict_set k v d) = map fst d"
  by (induction d) force+

lemma dict_set_new: "k \<notin> set (map fst d) \<Longrightarrow> dict_set k v d = d @ [(k, v)]"
  by (induction d) auto

lemma dict_set_keys:
  "map fst (dict_set k v d) = (if k \<in> set (map fst d) then map fst d else map fst d @ [k])"
  by (simp add: dict_set_old dict_set_new)

lemma map_of_dict_set: "map_of (dict_set k v d) = (map_of d)(k \<mapsto> v)"
  by (induction d) (auto simp: fun_eq_iff)

lemma dd_append_old: "k \<in> set (map fst d) \<Longrightarrow> map fst (dd_append k i d) = map fst d"
  by (induction d) force+

lemma dd_append_new: "k \<notin> set (map fst d) \<Longrightarrow> dd_append k i d = d @ [(k, [i])]"
  by (induction d) auto

lemma dd_append_keys:
  "map fst (dd_append k i d) = (if k \<in> set (map fst d) then map fst d else map fst d @ [k])"
  by (simp add: dd_append_old dd_append_new)

lemma map_of_dd_append:
  "map_of (dd_append k i d) =
     (map_of d)(k \<mapsto> (case map_of d k of None \<Rightarrow> [i] | Some l \<Rightarrow> l @ [i]))"
  by (induction d) (auto simp: fun_eq_iff)

subsection \<open>One line of the scan\<close>

text \<open>
  \<open>section_starts\<close> grows at its end and only by a heading-like line with a new name, so
  its last key is the name registered most recently.
\<close>

lemma section_starts_step:
  "section_starts (process_line i line st) =
     (if is_heading line \<and> section_name_of line \<noteq> [] \<and>
         section_name_of line \<notin> set (map fst (section_starts st))
      then section_starts st @ [(section_name_of line, i)]
      else section_starts st)"
  by (simp add: process_line_def Let_def dict_set_new)

lemma attributed_dd_append:
  "attributed (st\<lparr>section_pages := dd_append k i (section_pages st)\<rparr>) s j \<longleftrightarrow>
     attributed st s j \<or> (s = k \<and> j = i)"
  by (auto simp: attributed_def map_of_dd_append split: option.splits)

lemma attributed_step:
  "attributed (process_line i line st) s j \<longleftrightarrow>
     attributed st s j \<or>
     (j = i \<and>
      (if is_heading line
       then s = section_name_of line \<and> s \<noteq> [] \<and> s \<notin> set (map fst (section_starts st))
       else section_starts st \<noteq> [] \<and> s = last (map fst (section_starts st))))"
proof -
  have *: "\<And>k sp. attributed (st\<lparr>section_starts := sp, section_pages := dd_append k i (section_pages st)\<rparr>) s j \<longleftrightarrow>
     attributed st s j \<or> (s = k \<and> j = i)"
    by (auto simp: attributed_def map_of_dd_append split: option.splits)
  show ?thesis
    by (auto simp: process_line_def Let_def * attributed_dd_append)
qed

lemma attributed_fold:
  "attributed st s j \<Longrightarrow> attributed (fold (process_line i) ls st) s j"
  by (induction ls arbitrary: st) (simp_all add: attributed_step)

lemma attributed_scan_pages:
  "attributed st s j \<Longrightarrow> attributed (scan_pages i doc st) s j"
  by (induction doc arbitrary: i st) (simp_all add: attributed_fold)

text \<open>
  C8. A line that matches neither heading test changes nothing while no section is
  registered. Once a section is registered it appends its page to the list of the last
  key of \<open>section_starts\<close>, and to no other list: by \<open>section_starts_step\<close> that key is the
  section registered most recently in the whole scan, which need not be the section whose
  heading was read last. The page then stays in that list to the end of the scan.
\<close>

theorem nonheading_line_attribution:
  assumes "\<not> is_heading line"
  shows "(section_starts st = [] \<longrightarrow> process_line i line st = st) \<and>
         (section_starts st \<noteq> [] \<longrightarrow>
            process_line i line st =
              st\<lparr>section_pages :=
                   dd_append (last (map fst (section_starts st))) i (section_pages st)\<rparr> \<and>
            (\<forall>ls doc. attributed
                        (scan_pages (Suc i) doc (fold (process_line i) ls (process_line i line st)))
                        (last (map fst (section_starts st))) i)) \<and>
         (\<forall>s j. attributed (process_line i line st) s j \<longleftrightarrow>
                  attributed st s j \<or>
                  (section_starts st \<noteq> [] \<and> s = last (map fst (section_starts st)) \<and> j = i))"
proof -
  have a: "section_starts st = [] \<longrightarrow> process_line i line st = st"
    using assms by (simp add: process_line_def)
  have b: "section_starts st \<noteq> [] \<longrightarrow> process_line i line st =
              st\<lparr>section_pages :=
                   dd_append (last (map fst (section_starts st))) i (section_pages st)\<rparr>"
    using assms by (simp add: process_line_def)
  have c: "\<forall>s j. attributed (process_line i line st) s j \<longleftrightarrow>
                  attributed st s j \<or>
                  (section_starts st \<noteq> [] \<and> s = last (map fst (section_starts st)) \<and> j = i)"
    using assms by (auto simp: attributed_step)
  have d: "section_starts st \<noteq> [] \<longrightarrow> (\<forall>ls doc. attributed
                        (scan_pages (Suc i) doc (fold (process_line i) ls (process_line i line st)))
                        (last (map fst (section_starts st))) i)"
  proof (intro impI allI)
    fix ls doc
    assume "section_starts st \<noteq> []"
    then have "attributed (process_line i line st) (last (map fst (section_starts st))) i"
      using c by simp
    then show "attributed
                        (scan_pages (Suc i) doc (fold (process_line i) ls (process_line i line st)))
                        (last (map fst (section_starts st))) i"
      by (intro attributed_scan_pages attributed_fold)
  qed
  show ?thesis using a b c d by blast
qed

theorem nonheading_line_attribution_witness:
  "\<not> is_heading ''body text'' \<and>
   process_line 3 ''body text''
     \<lparr>section_starts = [(''summary'', 0), (''skills'', 1)],
      section_pages = [(''summary'', [0, 2]), (''skills'', [1])]\<rparr>
   = \<lparr>section_starts = [(''summary'', 0), (''skills'', 1)],
      section_pages = [(''summary'', [0, 2]), (''skills'', [1, 3])]\<rparr> \<and>
   process_line 0 ''body text'' init_state = init_state"
proof -
  have h: "\<not> is_heading ''body text''" by code_simp
  show ?thesis
    using h
      nonheading_line_attribution [OF h, of "\<lparr>section_starts = [(''summary'', 0), (''skills'', 1)],
      section_pages = [(''summary'', [0, 2]), (''skills'', [1])]\<rparr>" 3]
      nonheading_line_attribution [OF h, of init_state 0]
    by (simp add: init_state_def)
qed

text \<open>
  C10. Take the lines of one page and a state in which every heading-like line of the
  page has an empty name or a name that is registered already. Each such line leaves the
  state as it is. Over the whole page no section is registered, and the page is newly
  attributed to a section only when the page has a line that is not heading-like, which
  attributes it to the last registered section.
\<close>

theorem repeated_heading_attributes_nothing:
  assumes "\<forall>l \<in> set ls. is_heading l \<longrightarrow>
             section_name_of l = [] \<or> section_name_of l \<in> set (map fst (section_starts st))"
  shows "(\<forall>l \<in> set ls. is_heading l \<longrightarrow> (\<forall>st'. section_starts st' = section_starts st \<longrightarrow> process_line i l st' = st')) \<and>
         section_starts (fold (process_line i) ls st) = section_starts st \<and>
         (\<forall>s j. attributed (fold (process_line i) ls st) s j \<longleftrightarrow>
                  attributed st s j \<or>
                  (j = i \<and> section_starts st \<noteq> [] \<and> s = last (map fst (section_starts st)) \<and>
                   (\<exists>l \<in> set ls. \<not> is_heading l)))"
proof -
  have a: "\<forall>l \<in> set ls. is_heading l \<longrightarrow> (\<forall>st'. section_starts st' = section_starts st \<longrightarrow> process_line i l st' = st')"
    using assms by (auto simp: process_line_def Let_def)
  have bc: "section_starts (fold (process_line i) ls st') = section_starts st \<and>
         (\<forall>s j. attributed (fold (process_line i) ls st') s j \<longleftrightarrow>
                  attributed st' s j \<or>
                  (j = i \<and> section_starts st \<noteq> [] \<and> s = last (map fst (section_starts st)) \<and>
                   (\<exists>l \<in> set ls. \<not> is_heading l)))"
    if "section_starts st' = section_starts st" for st'
    using assms that
  proof (induction ls arbitrary: st')
    case Nil
    then show ?case by simp
  next
    case (Cons l ls)
    have s: "section_starts (process_line i l st') = section_starts st"
      using Cons.prems by (auto simp: section_starts_step)
    have ih: "section_starts (fold (process_line i) ls (process_line i l st')) = section_starts st \<and>
         (\<forall>s j. attributed (fold (process_line i) ls (process_line i l st')) s j \<longleftrightarrow>
                  attributed (process_line i l st') s j \<or>
                  (j = i \<and> section_starts st \<noteq> [] \<and> s = last (map fst (section_starts st)) \<and>
                   (\<exists>l \<in> set ls. \<not> is_heading l)))"
      using Cons.IH [OF _ s] Cons.prems(1) by simp
    have st: "\<forall>s j. attributed (process_line i l st') s j \<longleftrightarrow>
                attributed st' s j \<or> (j = i \<and> \<not> is_heading l \<and> section_starts st \<noteq> [] \<and> s = last (map fst (section_starts st)))"
      using Cons.prems by (auto simp: attributed_step)
    show ?case using ih st by auto
  qed
  show ?thesis using a bc [of st] by simp
qed

text \<open>
  Both kinds of line on page 2 of a document that registered \<^verbatim>\<open>summary\<close> on page 0: the
  heading \<^verbatim>\<open>SUMMARY\<close> again, and the line that is the one character U+00C9 (a capital E
  with an acute accent), which \<^verbatim>\<open>isupper\<close> accepts and whose name is empty.
\<close>

theorem repeated_heading_attributes_nothing_witness:
  "is_heading ''SUMMARY'' \<and> section_name_of ''SUMMARY'' = ''summary'' \<and>
   is_heading [CHR 0xC9] \<and> section_name_of [CHR 0xC9] = [] \<and>
   fold (process_line 2) [''SUMMARY'', [CHR 0xC9]]
     \<lparr>section_starts = [(''summary'', 0)], section_pages = [(''summary'', [0, 1])]\<rparr>
   = \<lparr>section_starts = [(''summary'', 0)], section_pages = [(''summary'', [0, 1])]\<rparr> \<and>
   \<not> attributed (fold (process_line 2) [''SUMMARY'', [CHR 0xC9]]
     \<lparr>section_starts = [(''summary'', 0)], section_pages = [(''summary'', [0, 1])]\<rparr>) ''summary'' 2"
proof -
  have h: "is_heading ''SUMMARY''" by code_simp
  have n: "section_name_of ''SUMMARY'' = ''summary''" by code_simp
  have h': "is_heading [CHR 0xC9]" by code_simp
  have n': "section_name_of [CHR 0xC9] = []" by code_simp
  have p: "\<forall>l \<in> set [''SUMMARY'', [CHR 0xC9]]. is_heading l \<longrightarrow>
             section_name_of l = [] \<or>
             section_name_of l \<in> set (map fst (section_starts
               \<lparr>section_starts = [(''summary'', 0)], section_pages = [(''summary'', [0, 1])]\<rparr>))"
    using n n' by simp
  show ?thesis
    using repeated_heading_attributes_nothing [OF p, of 2] h n h' n'
    by (simp add: attributed_def)
qed

text \<open>The same two lines in a whole document: the last two pages count for no section.\<close>

lemma repeated_heading_pages_not_counted:
  "detect_sections [''SUMMARY'', ''SUMMARY'', [CHR 0xC9]] None =
     [(''summary_pages'', PyInt 1), (''summary'', PyStr ''n/a'')]"
  by code_simp

subsection \<open>Limits do not reach the page counts\<close>







subsection \<open>What every state of a scan satisfies\<close>

lemma list_all_dropWhile: "list_all P xs \<Longrightarrow> list_all P (dropWhile Q xs)"
  by (induction xs) auto

lemma list_all_strip: "list_all P s \<Longrightarrow> list_all P (strip s)"
  by (simp add: strip_def list_all_dropWhile)

lemma last_dropWhile: "dropWhile P xs \<noteq> [] \<Longrightarrow> last (dropWhile P xs) = last xs"
  by (induction xs) (auto split: if_splits)

lemma strip_ends:
  assumes "strip s \<noteq> []"
  shows "\<not> is_space (hd (strip s)) \<and> \<not> is_space (last (strip s))"
proof -
  let ?a = "dropWhile is_space s"
  let ?b = "dropWhile is_space (rev ?a)"
  have b: "?b \<noteq> []" using assms unfolding strip_def rev_is_Nil_conv .
  have a: "?a \<noteq> []"
  proof
    assume e: "?a = []"
    show False using b unfolding e by simp
  qed
  have "last (strip s) = hd ?b" using b by (simp add: strip_def last_rev)
  moreover have "\<not> is_space (hd ?b)" using b by (rule hd_dropWhile)
  moreover have "hd (strip s) = last ?b" using b by (simp add: strip_def hd_rev)
  moreover have "last ?b = last (rev ?a)" using b by (rule last_dropWhile)
  moreover have "last (rev ?a) = hd ?a" using a by (simp add: last_rev)
  moreover have "\<not> is_space (hd ?a)" using a by (rule hd_dropWhile)
  ultimately show ?thesis by simp
qed

lemma name_chars_section_name_of: "name_chars (section_name_of line)"
  unfolding name_chars_def section_name_of_def re_sub_non_name_def
  by (rule list_all_strip) (simp add: list_all_iff)

lemma scan_inv_init: "scan_inv init_state"
  by (simp add: scan_inv_def init_state_def)

lemma scan_inv_step: "scan_inv st \<Longrightarrow> scan_inv (process_line i line st)"
proof -
  assume inv: "scan_inv st"
  show ?thesis
  proof (cases "is_heading line \<and> section_name_of line \<noteq> [] \<and>
                 section_name_of line \<notin> set (map fst (section_starts st))")
    case True
    then have "process_line i line st =
        st\<lparr>section_starts := section_starts st @ [(section_name_of line, i)],
             section_pages := section_pages st @ [(section_name_of line, [i])]\<rparr>"
      using inv by (simp add: process_line_def Let_def dict_set_new dd_append_new scan_inv_def)
    then show ?thesis
      using inv True name_chars_section_name_of [of line] by (simp add: scan_inv_def)
  next
    case False
    show ?thesis
    proof (cases "is_heading line")
      case True
      with False have "process_line i line st = st"
        by (auto simp: process_line_def Let_def)
      then show ?thesis using inv by simp
    next
      case nh: False
      show ?thesis
      proof (cases "section_starts st = []")
        case True
        then show ?thesis using nh inv by (simp add: process_line_def)
      next
        case ne: False
        then have "map fst (section_starts st) \<noteq> []" by simp
        then have "last (map fst (section_starts st)) \<in> set (map fst (section_starts st))"
          by (rule last_in_set)
        then have "last (map fst (section_starts st)) \<in> set (map fst (section_pages st))"
          using inv unfolding scan_inv_def by metis
        then have "map fst (dd_append (last (map fst (section_starts st))) i (section_pages st))
                   = map fst (section_pages st)"
          by (rule dd_append_old)
        then show ?thesis
          using nh ne inv by (simp add: process_line_def scan_inv_def)
      qed
    qed
  qed
qed

lemma scan_inv_fold: "scan_inv st \<Longrightarrow> scan_inv (fold (process_line i) ls st)"
  by (induction ls arbitrary: st) (simp_all add: scan_inv_step)

lemma scan_inv_scan_pages: "scan_inv st \<Longrightarrow> scan_inv (scan_pages i doc st)"
  by (induction doc arbitrary: i st) (simp_all add: scan_inv_fold)

subsection \<open>Registered names stay registered\<close>

lemma keys_step:
  "k \<in> fst ` set (section_starts st) \<Longrightarrow>
   k \<in> fst ` set (section_starts (process_line i line st))"
  by (auto simp: section_starts_step)

lemma keys_fold:
  "k \<in> fst ` set (section_starts st) \<Longrightarrow>
   k \<in> fst ` set (section_starts (fold (process_line i) ls st))"
  by (induction ls arbitrary: st) (simp_all add: keys_step)

lemma keys_scan_pages:
  "k \<in> fst ` set (section_starts st) \<Longrightarrow>
   k \<in> fst ` set (section_starts (scan_pages i doc st))"
  by (induction doc arbitrary: i st) (simp_all add: keys_fold)

lemma registers_step:
  "is_heading line \<Longrightarrow> section_name_of line \<noteq> [] \<Longrightarrow>
   section_name_of line \<in> fst ` set (section_starts (process_line i line st))"
  by (simp add: section_starts_step)

lemma registers_fold:
  "line \<in> set ls \<Longrightarrow> is_heading line \<Longrightarrow> section_name_of line \<noteq> [] \<Longrightarrow>
   section_name_of line \<in> fst ` set (section_starts (fold (process_line i) ls st))"
proof (induction ls arbitrary: st)
  case Nil
  then show ?case by simp
next
  case (Cons l ls)
  show ?case
  proof (cases "line = l")
    case True
    then have "section_name_of line \<in> fst ` set (section_starts (process_line i l st))"
      using Cons.prems registers_step by blast
    then show ?thesis by (simp add: keys_fold)
  next
    case False
    then show ?thesis using Cons by simp
  qed
qed

lemma registers_scan_pages:
  "i < length doc \<Longrightarrow> line \<in> set (split_lines (doc ! i)) \<Longrightarrow> is_heading line \<Longrightarrow>
   section_name_of line \<noteq> [] \<Longrightarrow>
   section_name_of line \<in> fst ` set (section_starts (scan_pages n doc st))"
proof (induction doc arbitrary: i n st)
  case Nil
  then show ?case by simp
next
  case (Cons page doc)
  show ?case
  proof (cases i)
    case 0
    then have "section_name_of line \<in>
        fst ` set (section_starts (fold (process_line n) (split_lines page) st))"
      using Cons.prems registers_fold by simp
    then show ?thesis by (simp add: keys_scan_pages)
  next
    case (Suc j)
    then show ?thesis using Cons by simp
  qed
qed

subsection \<open>The keys of the result\<close>

lemma sorted_pages_keys: "map fst (sorted_pages sp) = map fst sp"
  by (simp add: sorted_pages_def comp_def case_prod_unfold)

lemma dict_set_key_set: "fst ` set (dict_set k v d) = insert k (fst ` set d)"
proof -
  have "set (map fst (dict_set k v d)) = insert k (set (map fst d))"
    unfolding dict_set_keys by auto
  then show ?thesis by simp
qed

lemma emit_section_keys:
  "fst ` set (emit_section lims (sec, pages) r) =
     {page_key sec, status_key sec} \<union> fst ` set r"
  by (auto simp: emit_section_def dict_set_key_set)

lemma fold_emit_keys:
  "fst ` set (fold (emit_section lims) sp r) =
     (\<Union>s \<in> fst ` set sp. {page_key s, status_key s}) \<union> fst ` set r"
proof (induction sp arbitrary: r)
  case Nil
  then show ?case by simp
next
  case (Cons item sp)
  obtain sec pages where item: "item = (sec, pages)" by (cases item)
  show ?case unfolding item using Cons.IH [of "emit_section lims (sec, pages) r"]
    by (auto simp: emit_section_keys)
qed

lemma detect_sections_keys:
  "set (map fst (detect_sections doc lims)) =
     (\<Union>s \<in> set (map fst (section_starts (scan_pages 0 doc init_state))).
        {page_key s, status_key s})"
proof -
  have "scan_inv (scan_pages 0 doc init_state)"
    by (rule scan_inv_scan_pages) (rule scan_inv_init)
  then have "map fst (section_pages (scan_pages 0 doc init_state)) =
             map fst (section_starts (scan_pages 0 doc init_state))"
    by (simp add: scan_inv_def)
  then have "fst ` set (sorted_pages (section_pages (scan_pages 0 doc init_state))) =
             fst ` set (section_starts (scan_pages 0 doc init_state))"
    using sorted_pages_keys [of "section_pages (scan_pages 0 doc init_state)"]
    by (metis set_map)
  then show ?thesis
    unfolding detect_sections_def build_result_def by (simp add: fold_emit_keys)
qed

text \<open>
  C7, as the code has it. Every heading-like line of the document whose name is not
  empty has its two keys in the report: the name with each space replaced by an
  underscore, and that followed by \<^verbatim>\<open>_pages\<close>. The name is the trimmed line in
  lowercase, without the characters other than \<^verbatim>\<open>a-z\<close> and the space, trimmed again: a
  word over \<^verbatim>\<open>a-z\<close> and the space that neither begins nor ends with a space. Spaces
  inside the name are kept one by one.
\<close>

theorem heading_keys:
  assumes "i < length doc" and "line \<in> set (split_lines (doc ! i))"
    and "is_heading line" and "section_name_of line \<noteq> []"
  shows "replace_space (section_name_of line) @ ''_pages'' \<in> set (map fst (detect_sections doc lims)) \<and>
         replace_space (section_name_of line) \<in> set (map fst (detect_sections doc lims)) \<and>
         section_name_of line =
           strip (filter (\<lambda>c. is_lower c \<or> c = CHR '' '') (map lower_char (strip line))) \<and>
         list_all (\<lambda>c. is_lower c \<or> c = CHR '' '') (section_name_of line) \<and>
         hd (section_name_of line) \<noteq> CHR '' '' \<and> last (section_name_of line) \<noteq> CHR '' ''"
proof -
  let ?n = "section_name_of line"
  have "?n \<in> fst ` set (section_starts (scan_pages 0 doc init_state))"
    using assms by (rule registers_scan_pages)
  then have "?n \<in> set (map fst (section_starts (scan_pages 0 doc init_state)))"
    by simp
  then have keys: "page_key ?n \<in> set (map fst (detect_sections doc lims))"
    "status_key ?n \<in> set (map fst (detect_sections doc lims))"
    unfolding detect_sections_keys by blast+
  have chars: "list_all (\<lambda>c. is_lower c \<or> c = CHR '' '') ?n"
    using name_chars_section_name_of [of line] by (simp add: name_chars_def)
  have ends: "hd ?n \<noteq> CHR '' '' \<and> last ?n \<noteq> CHR '' ''"
    using assms(4) strip_ends [of "re_sub_non_name (lower (strip line))"]
    by (auto simp: section_name_of_def is_space_def)
  show ?thesis
    using keys chars ends
    by (simp add: page_key_def status_key_def section_name_of_def re_sub_non_name_def lower_def)
qed

theorem heading_keys_witness:
  "is_heading ''Work Experience:'' \<and>
   section_name_of ''Work Experience:'' = ''work experience'' \<and>
   ''work_experience_pages'' \<in> set (map fst (detect_sections [''intro'', ''Work Experience:''] None)) \<and>
   ''work_experience'' \<in> set (map fst (detect_sections [''intro'', ''Work Experience:''] None))"
proof -
  have h: "is_heading ''Work Experience:''" by code_simp
  have n: "section_name_of ''Work Experience:'' = ''work experience''" by code_simp
  have i: "1 < length [''intro'', ''Work Experience:'']" by simp
  have l: "''Work Experience:'' \<in> set (split_lines ([''intro'', ''Work Experience:''] ! 1))"
    by code_simp
  have ne: "section_name_of ''Work Experience:'' \<noteq> []" using n by simp
  show ?thesis
    using heading_keys [OF i l h ne, of None] h n by (simp add: replace_space_def)
qed

text \<open>
  C7, as it is stated, fails on a heading with two spaces between its words. The code
  keeps both spaces and writes each as an underscore, so the keys are neither the
  name of the specification (one space) followed by \<^verbatim>\<open>_pages\<close>, nor that name with
  its space written as an underscore.
\<close>

theorem normalized_name_counterexample:
  "is_heading ''WORK  EXPERIENCE'' \<and>
   spec_normalized_name ''WORK  EXPERIENCE'' = ''work experience'' \<and>
   detect_sections [''WORK  EXPERIENCE''] None =
     [(''work__experience_pages'', PyInt 1), (''work__experience'', PyStr ''n/a'')] \<and>
   map fst (detect_sections [''WORK  EXPERIENCE''] None) \<noteq>
     [spec_normalized_name ''WORK  EXPERIENCE'' @ ''_pages'',
      spec_normalized_name ''WORK  EXPERIENCE''] \<and>
   map fst (detect_sections [''WORK  EXPERIENCE''] None) \<noteq>
     [replace_space (spec_normalized_name ''WORK  EXPERIENCE'') @ ''_pages'',
      replace_space (spec_normalized_name ''WORK  EXPERIENCE'')]"
  by code_simp

subsection \<open>The status of a section\<close>

lemma section_status_spec:
  "section_status lims sec pages = spec_status lims sec (length pages)"
proof (cases lims)
  case None
  then show ?thesis by (simp add: section_status_def spec_status_def)
next
  case (Some m)
  then show ?thesis by (cases m) (simp_all add: section_status_def spec_status_def)
qed

lemma emit_section_status:
  "map_of (emit_section lims (sec, pages) r) (status_key sec) =
     Some (PyStr (section_status lims sec pages))"
  by (simp add: emit_section_def map_of_dict_set)

lemma emit_section_other:
  "k \<noteq> status_key sec \<Longrightarrow> k \<noteq> page_key sec \<Longrightarrow>
   map_of (emit_section lims (sec, pages) r) k = map_of r k"
  by (simp add: emit_section_def map_of_dict_set)

lemma replace_space_inj:
  assumes "name_chars s" and "name_chars t" and "replace_space s = replace_space t"
  shows "s = t"
proof -
  have u: "\<not> is_lower CHR ''_''" by (simp add: is_lower_def)
  have "inj_on (\<lambda>c. if c = CHR '' '' then CHR ''_'' else c) (set s \<union> set t)"
  proof (rule inj_onI)
    fix x y
    assume x: "x \<in> set s \<union> set t" and y: "y \<in> set s \<union> set t"
      and e: "(if x = CHR '' '' then CHR ''_'' else x) = (if y = CHR '' '' then CHR ''_'' else y)"
    have "x \<noteq> CHR ''_''" "y \<noteq> CHR ''_''"
      using x y assms(1,2) u by (auto simp: name_chars_def list_all_iff)
    then show "x = y" using e by (auto split: if_splits)
  qed
  then show ?thesis using assms(3) unfolding replace_space_def by (metis map_inj_on)
qed

lemma page_key_collision:
  assumes "name_chars s" and "name_chars sec" and "page_key s = status_key sec"
  shows "sec = s @ '' pages''"
proof -
  have "name_chars (s @ '' pages'')"
    using assms(1) by (simp add: name_chars_def is_lower_def)
  moreover have "replace_space (s @ '' pages'') = replace_space sec"
    using assms(3) by (simp add: page_key_def status_key_def replace_space_def)
  ultimately show ?thesis using assms(2) replace_space_inj by metis
qed

lemma fold_emit_keeps:
  assumes "\<forall>s \<in> fst ` set post. status_key s \<noteq> k \<and> page_key s \<noteq> k"
  shows "map_of (fold (emit_section lims) post r) k = map_of r k"
  using assms
proof (induction post arbitrary: r)
  case Nil
  then show ?case by simp
next
  case (Cons item post)
  obtain s p where item: "item = (s, p)" by (cases item)
  have "map_of (emit_section lims (s, p) r) k = map_of r k"
    using Cons.prems item by (intro emit_section_other) auto
  then show ?case using Cons.IH [of "emit_section lims (s, p) r"] Cons.prems item by simp
qed

text \<open>
  C2, as the code has it. Take a section that the scan detected, with the pages
  attributed to it, and suppose that no section registered after it has a page-count
  key equal to its key, that is, that its name is not the name of a later section
  followed by \<^verbatim>\<open> pages\<close>. Then the returned mapping holds, under the key of the section,
  the status of the specification for the number of distinct pages: \<^verbatim>\<open>"pass"\<close> when the
  limits have the name and the count is at most the limit (equality included),
  \<^verbatim>\<open>"fail"\<close> when they have the name and the count is larger, \<^verbatim>\<open>"n/a"\<close> when they do not
  have the name or are absent.
\<close>

theorem section_status_by_limit:
  assumes "section_pages (scan_pages 0 doc init_state) = before @ (sec, raw) # after"
    and "\<forall>s \<in> set (map fst after). sec \<noteq> s @ '' pages''"
  shows "map_of (detect_sections doc lims) (status_key sec)
           = Some (PyStr (spec_status lims sec (card (set raw))))"
proof -
  let ?sp = "section_pages (scan_pages 0 doc init_state)"
  have inv: "scan_inv (scan_pages 0 doc init_state)"
    by (rule scan_inv_scan_pages) (rule scan_inv_init)
  have d: "distinct (map fst ?sp)" using inv unfolding scan_inv_def by metis
  have "list_all (\<lambda>k. k \<noteq> [] \<and> name_chars k) (map fst ?sp)"
    using inv unfolding scan_inv_def by metis
  then have nc: "\<forall>k \<in> fst ` set ?sp. name_chars k"
    by (auto simp: list_all_iff)
  have ncsec: "name_chars sec" using nc unfolding assms(1) by simp
  have later: "status_key s \<noteq> status_key sec \<and> page_key s \<noteq> status_key sec"
    if s: "s \<in> fst ` set (sorted_pages after)" for s
  proof -
    have s': "s \<in> fst ` set after"
      using s sorted_pages_keys [of after] by (metis set_map)
    then have "s \<noteq> sec" using d unfolding assms(1) by auto
    moreover have ncs: "name_chars s" using nc s' unfolding assms(1) by auto
    ultimately have 1: "status_key s \<noteq> status_key sec"
      using ncsec replace_space_inj unfolding status_key_def by blast
    have "sec \<noteq> s @ '' pages''" using assms(2) s' by auto
    then have 2: "page_key s \<noteq> status_key sec"
      using page_key_collision [OF ncs ncsec] by blast
    show ?thesis using 1 2 by simp
  qed
  have split: "sorted_pages ?sp =
      sorted_pages before @ (sec, sort (remdups raw)) # sorted_pages after"
    unfolding assms(1) by (simp add: sorted_pages_def)
  have "map_of (detect_sections doc lims) (status_key sec) =
        map_of (emit_section lims (sec, sort (remdups raw))
                  (fold (emit_section lims) (sorted_pages before) [])) (status_key sec)"
    unfolding detect_sections_def build_result_def split
    using fold_emit_keeps [of "sorted_pages after" "status_key sec"] later by simp
  then show ?thesis
    by (simp add: emit_section_status section_status_spec length_remdups_card_conv)
qed

text \<open>
  Three sections that meet the hypothesis. The first stands alone and has 3 pages, so
  the limit 3 passes and the limit 2 fails. In the document with the headings \<^verbatim>\<open>A\<close> and
  \<^verbatim>\<open>A PAGES\<close> in this order, the section named like a page-count key comes last, and
  neither status is lost.
\<close>

theorem section_status_by_limit_witness:
  "map_of (detect_sections [''SUMMARY'', ''first page'', ''second page'']
             (Some [(''summary'', 3)])) ''summary'' = Some (PyStr ''pass'') \<and>
   map_of (detect_sections [''SUMMARY'', ''first page'', ''second page'']
             (Some [(''summary'', 2)])) ''summary'' = Some (PyStr ''fail'') \<and>
   map_of (detect_sections [''SUMMARY'', ''first page'', ''second page'']
             (Some [(''skills'', 2)])) ''summary'' = Some (PyStr ''n/a'') \<and>
   map_of (detect_sections [''SUMMARY'', ''first page'', ''second page'']
             None) ''summary'' = Some (PyStr ''n/a'') \<and>
   map_of (detect_sections [''A'', ''A PAGES''] (Some [(''a pages'', 1)])) ''a_pages''
     = Some (PyStr ''pass'') \<and>
   map_of (detect_sections [''A'', ''A PAGES''] (Some [(''a pages'', 1)])) ''a''
     = Some (PyStr ''n/a'')"
proof -
  have sp: "section_pages (scan_pages 0 [''SUMMARY'', ''first page'', ''second page''] init_state)
            = [] @ (''summary'', [0, 1, 2]) # []"
    by code_simp
  have sq: "section_pages (scan_pages 0 [''A'', ''A PAGES''] init_state)
            = [(''a'', [0])] @ (''a pages'', [1]) # []"
    by code_simp
  have sr: "section_pages (scan_pages 0 [''A'', ''A PAGES''] init_state)
            = [] @ (''a'', [0]) # [(''a pages'', [1])]"
    by code_simp
  have e: "\<forall>s \<in> set (map fst []). (''summary'' :: string) \<noteq> s @ '' pages''"
    "\<forall>s \<in> set (map fst []). (''a pages'' :: string) \<noteq> s @ '' pages''"
    "\<forall>s \<in> set (map fst [(''a pages'', [1::nat])]). (''a'' :: string) \<noteq> s @ '' pages''"
    by simp_all
  have c: "card (set [0, 1, 2 :: nat]) = 3" by simp
  have k: "status_key ''summary'' = ''summary''" "status_key ''a pages'' = ''a_pages''"
    "status_key ''a'' = ''a''"
    by (simp_all add: status_key_def replace_space_def)
  show ?thesis
    using section_status_by_limit [OF sp e(1), of "Some [(''summary'', 3)]"]
      section_status_by_limit [OF sp e(1), of "Some [(''summary'', 2)]"]
      section_status_by_limit [OF sp e(1), of "Some [(''skills'', 2)]"]
      section_status_by_limit [OF sp e(1), of None]
      section_status_by_limit [OF sq e(2), of "Some [(''a pages'', 1)]"]
      section_status_by_limit [OF sr e(3), of "Some [(''a pages'', 1)]"]
    unfolding c k by (simp add: spec_status_def)
qed

text \<open>
  C2, as it is stated, fails when the section named like a page-count key comes first.
  With the headings \<^verbatim>\<open>A PAGES\<close> and \<^verbatim>\<open>A\<close> in this order, both sections are detected with
  one page each and no limits are given, so the status of either is \<^verbatim>\<open>"n/a"\<close>; but
  the page count of \<^verbatim>\<open>a\<close> is written under \<^verbatim>\<open>a_pages\<close> after the status of \<^verbatim>\<open>a pages\<close>,
  and the returned mapping holds the integer 1 there.
\<close>

theorem section_status_counterexample:
  "section_pages (scan_pages 0 [''A PAGES'', ''A''] init_state) =
     [(''a pages'', [0]), (''a'', [1])] \<and>
   spec_status None ''a pages'' 1 = ''n/a'' \<and>
   detect_sections [''A PAGES'', ''A''] None =
     [(''a_pages_pages'', PyInt 1), (''a_pages'', PyInt 1), (''a'', PyStr ''n/a'')] \<and>
   map_of (detect_sections [''A PAGES'', ''A''] None) (status_key ''a pages'') \<noteq>
     Some (PyStr (spec_status None ''a pages'' 1))"
  by code_simp

subsection \<open>Pages without a heading\<close>

lemma dd_append_last:
  "s \<notin> fst ` set pre \<Longrightarrow> dd_append s i (pre @ [(s, l)]) = pre @ [(s, l @ [i])]"
  by (induction pre) auto

lemma body_lines:
  assumes "\<forall>l \<in> set ls. \<not> is_heading l" and "starts \<noteq> []"
    and "last (map fst starts) = s" and "s \<notin> fst ` set pre"
  shows "fold (process_line i) ls \<lparr>section_starts = starts, section_pages = pre @ [(s, l0)]\<rparr>
         = \<lparr>section_starts = starts, section_pages = pre @ [(s, l0 @ replicate (length ls) i)]\<rparr>"
  using assms(1)
proof (induction ls arbitrary: l0)
  case Nil
  then show ?case by simp
next
  case (Cons l ls)
  have "process_line i l \<lparr>section_starts = starts, section_pages = pre @ [(s, l0)]\<rparr>
        = \<lparr>section_starts = starts, section_pages = pre @ [(s, l0 @ [i])]\<rparr>"
    using Cons.prems assms(2,3,4) by (simp add: process_line_def dd_append_last)
  then show ?case using Cons.IH [of "l0 @ [i]"] Cons.prems
    by (simp add: replicate_append_same)
qed

lemma split_acc_nonempty: "split_acc cur s \<noteq> []"
  by (induction s arbitrary: cur) auto

lemma split_lines_nonempty: "split_lines s \<noteq> []"
  by (simp add: split_lines_def split_acc_nonempty)

text \<open>
  C3, as the code has it. Five pages: the line \<^verbatim>\<open>SUMMARY\<close> first on page 0, two pages
  without a heading-like line, the line \<^verbatim>\<open>SKILLS:\<close> first on page 3, one page without
  a heading-like line. The page of a heading counts for its section, for \<^verbatim>\<open>SKILLS:\<close>
  as for \<^verbatim>\<open>SUMMARY\<close>: the skills section has 2 pages and fails its limit of 1.
\<close>

theorem summary_skills_example:
  assumes "split_lines p0 = ''SUMMARY'' # r0" and "\<forall>l \<in> set r0. \<not> is_heading l"
    and "\<forall>l \<in> set (split_lines b1). \<not> is_heading l"
    and "\<forall>l \<in> set (split_lines b2). \<not> is_heading l"
    and "split_lines p3 = ''SKILLS:'' # r3" and "\<forall>l \<in> set r3. \<not> is_heading l"
    and "\<forall>l \<in> set (split_lines b4). \<not> is_heading l"
  shows "detect_sections [p0, b1, b2, p3, b4] (Some [(''summary'', 2), (''skills'', 1)]) =
           [(''summary_pages'', PyInt 3), (''summary'', PyStr ''fail''),
            (''skills_pages'', PyInt 2), (''skills'', PyStr ''fail'')]"
proof -
  define n0 where "n0 = length r0"
  define n1 where "n1 = length (split_lines b1)"
  define n2 where "n2 = length (split_lines b2)"
  define n3 where "n3 = length r3"
  define n4 where "n4 = length (split_lines b4)"
  have pos: "0 < n1" "0 < n2" "0 < n4"
    using split_lines_nonempty by (simp_all add: n1_def n2_def n4_def)
  define L where "L = [0] @ replicate n0 0 @ replicate n1 1 @ replicate n2 (2::nat)"
  define K where "K = [3] @ replicate n3 3 @ replicate n4 (4::nat)"
  have h0: "process_line 0 ''SUMMARY'' init_state =
      \<lparr>section_starts = [(''summary'', 0)], section_pages = [] @ [(''summary'', [0])]\<rparr>"
    by code_simp
  have s0: "fold (process_line 0) (split_lines p0) init_state =
      \<lparr>section_starts = [(''summary'', 0)],
       section_pages = [] @ [(''summary'', [0] @ replicate n0 0)]\<rparr>"
    unfolding assms(1) fold_simps h0 n0_def
    by (rule body_lines) (use assms(2) in simp_all)
  have s1: "fold (process_line 1) (split_lines b1)
              (fold (process_line 0) (split_lines p0) init_state) =
      \<lparr>section_starts = [(''summary'', 0)],
       section_pages = [] @ [(''summary'', ([0] @ replicate n0 0) @ replicate n1 1)]\<rparr>"
    unfolding s0 n1_def by (rule body_lines) (use assms(3) in simp_all)
  have s2: "fold (process_line 2) (split_lines b2)
              (fold (process_line 1) (split_lines b1)
                (fold (process_line 0) (split_lines p0) init_state)) =
      \<lparr>section_starts = [(''summary'', 0)],
       section_pages = [(''summary'', L)]\<rparr>"
  proof -
    have "fold (process_line 2) (split_lines b2)
              (fold (process_line 1) (split_lines b1)
                (fold (process_line 0) (split_lines p0) init_state)) =
      \<lparr>section_starts = [(''summary'', 0)],
       section_pages = [] @ [(''summary'', (([0] @ replicate n0 0) @ replicate n1 1) @ replicate n2 2)]\<rparr>"
      unfolding s1 n2_def by (rule body_lines) (use assms(4) in simp_all)
    then show ?thesis by (simp add: L_def)
  qed
  have hd3: "is_heading ''SKILLS:''" by code_simp
  have nm3: "section_name_of ''SKILLS:'' = ''skills''" by code_simp
  have h3: "process_line 3 ''SKILLS:''
              \<lparr>section_starts = [(''summary'', 0)], section_pages = [(''summary'', L)]\<rparr> =
      \<lparr>section_starts = [(''summary'', 0), (''skills'', 3)],
       section_pages = [(''summary'', L)] @ [(''skills'', [3])]\<rparr>"
    by (simp add: process_line_def Let_def hd3 nm3)
  have s3: "fold (process_line 3) (split_lines p3)
              \<lparr>section_starts = [(''summary'', 0)], section_pages = [(''summary'', L)]\<rparr> =
      \<lparr>section_starts = [(''summary'', 0), (''skills'', 3)],
       section_pages = [(''summary'', L)] @ [(''skills'', [3] @ replicate n3 3)]\<rparr>"
    unfolding assms(5) fold_simps h3 n3_def
    by (rule body_lines) (use assms(6) in simp_all)
  have s4: "fold (process_line 4) (split_lines b4)
      \<lparr>section_starts = [(''summary'', 0), (''skills'', 3)],
       section_pages = [(''summary'', L)] @ [(''skills'', [3] @ replicate n3 3)]\<rparr> =
      \<lparr>section_starts = [(''summary'', 0), (''skills'', 3)],
       section_pages = [(''summary'', L)] @ [(''skills'', ([3] @ replicate n3 3) @ replicate n4 4)]\<rparr>"
    unfolding n4_def by (rule body_lines) (use assms(7) in simp_all)
  have scan: "section_pages (scan_pages 0 [p0, b1, b2, p3, b4] init_state) =
      [(''summary'', L), (''skills'', K)]"
  proof -
    have n: "Suc 0 = 1" "Suc 1 = 2" "Suc 2 = 3" "Suc 3 = 4" by simp_all
    have "scan_pages 0 [p0, b1, b2, p3, b4] init_state =
        fold (process_line 4) (split_lines b4)
          (fold (process_line 3) (split_lines p3)
            (fold (process_line 2) (split_lines b2)
              (fold (process_line 1) (split_lines b1)
                (fold (process_line 0) (split_lines p0) init_state))))"
      by (simp only: scan_pages.simps n)
    then show ?thesis unfolding s2 s3 s4 by (simp add: K_def)
  qed
  have "set L = {0, 1, 2}" using pos by (auto simp: L_def)
  then have cL: "length (remdups L) = 3" by (simp add: length_remdups_card_conv)
  have "set K = {3, 4}" using pos by (auto simp: K_def)
  then have cK: "length (remdups K) = 2" by (simp add: length_remdups_card_conv)
  show ?thesis
    unfolding detect_sections_def scan
    by (simp add: sorted_pages_def build_result_def emit_section_def section_status_def
        page_key_def status_key_def replace_space_def cL cK)
qed

theorem summary_skills_example_witness:
  "detect_sections [''SUMMARY'', ''first body page'', ''second body page'', ''SKILLS:'', ''python''] (Some [(''summary'', 2), (''skills'', 1)]) =
           [(''summary_pages'', PyInt 3), (''summary'', PyStr ''fail''),
            (''skills_pages'', PyInt 2), (''skills'', PyStr ''fail'')]"
proof -
  have 1: "split_lines ''SUMMARY'' = ''SUMMARY'' # []" by code_simp
  have 2: "\<forall>l \<in> set []. \<not> is_heading l" by simp
  have 3: "\<forall>l \<in> set (split_lines ''first body page''). \<not> is_heading l" by code_simp
  have 4: "\<forall>l \<in> set (split_lines ''second body page''). \<not> is_heading l" by code_simp
  have 5: "split_lines ''SKILLS:'' = ''SKILLS:'' # []" by code_simp
  have 7: "\<forall>l \<in> set (split_lines ''python''). \<not> is_heading l" by code_simp
  show ?thesis using summary_skills_example [OF 1 2 3 4 5 2 7] .
qed

text \<open>
  The values \<^verbatim>\<open>skills_pages\<close> 1 and \<^verbatim>\<open>skills\<close> \<^verbatim>\<open>"pass"\<close> are those of a document of four
  pages, in which \<^verbatim>\<open>SKILLS:\<close> is the first line of the last body page.
\<close>

lemma summary_skills_four_pages:
  "detect_sections
     [''SUMMARY'', ''first body page'', ''second body page'',
      ''SKILLS:'' @ [CHR 0x0A] @ ''python'']
     (Some [(''summary'', 2), (''skills'', 1)]) =
           [(''summary_pages'', PyInt 3), (''summary'', PyStr ''fail''),
            (''skills_pages'', PyInt 1), (''skills'', PyStr ''pass'')]"
  by code_simp

text \<open>
  C3, as it is stated, fails: the report of the five pages is not the one with
  \<^verbatim>\<open>skills_pages\<close> 1 and \<^verbatim>\<open>skills\<close> \<^verbatim>\<open>"pass"\<close>.
\<close>

theorem summary_skills_counterexample:
  "detect_sections [''SUMMARY'', ''first body page'', ''second body page'', ''SKILLS:'', ''python'']
     (Some [(''summary'', 2), (''skills'', 1)]) \<noteq>
           [(''summary_pages'', PyInt 3), (''summary'', PyStr ''fail''),
            (''skills_pages'', PyInt 1), (''skills'', PyStr ''pass'')]"
  by code_simp

end
